theory Spec2Isabelle
  imports Complex_Main
begin

section \<open>Prayer hall carpet layout: rows, column intersection, cut intervals\<close>

text \<open>
  The program is \<^verbatim>\<open>src/prayer_hall.py\<close>. Its numbers are Python floats, modelled as
  the reals that they denote; infinities and NaN are outside the model. Where
  \<^verbatim>\<open>build_rows\<close> adds a height to the row cursor, the addition is a parameter, because
  its rounding decides whether the loop stops. Elsewhere sums and differences are
  exact, and what is proved of them rests on comparisons only. Row indices are Python
  ints, modelled as \<^typ>\<open>int\<close>. A Python dict is a map with a finite domain; finiteness
  appears as a hypothesis where it matters.
\<close>

subsection \<open>Parsing the column text\<close>

text \<open>
  A column is the tuple \<^verbatim>\<open>(label, cx, cy, radius)\<close> that \<^verbatim>\<open>parse_columns\<close> returns and
  \<^verbatim>\<open>plot_prayer_hall\<close> receives; an interval is a pair \<^verbatim>\<open>(x_min, x_max)\<close>.
\<close>

type_synonym column = "string \<times> real \<times> real \<times> real"
type_synonym interval = "real \<times> real"

text \<open>
  The text is a list of characters with code points below 256. The string methods of
  Python that \<^verbatim>\<open>parse_columns\<close> calls are written out for these characters:
  \<^verbatim>\<open>str.strip()\<close> removes leading and trailing whitespace, \<^verbatim>\<open>str.splitlines()\<close> splits at
  line boundaries (\<^verbatim>\<open>\r\n\<close> counting as one) and \<^verbatim>\<open>str.split(',')\<close> splits at every comma.
\<close>

definition is_space :: "char \<Rightarrow> bool" where
  "is_space c = (c \<in> set [CHR 0x09, CHR 0x0A, CHR 0x0B, CHR 0x0C, CHR 0x0D,
                            CHR 0x1C, CHR 0x1D, CHR 0x1E, CHR 0x1F, CHR 0x20,
                            CHR 0x85, CHR 0xA0])"

definition is_linebreak :: "char \<Rightarrow> bool" where
  "is_linebreak c = (c \<in> set [CHR 0x0A, CHR 0x0B, CHR 0x0C, CHR 0x0D,
                                CHR 0x1C, CHR 0x1D, CHR 0x1E, CHR 0x85])"

definition strip :: "string \<Rightarrow> string" where
  "strip s = rev (dropWhile is_space (rev (dropWhile is_space s)))"

fun splitlines_from :: "string \<Rightarrow> string \<Rightarrow> string list" where
  "splitlines_from cur [] = (if cur = [] then [] else [cur])"
| "splitlines_from cur (c # cs) =
     (if is_linebreak c then
        (case cs of
           d # ds \<Rightarrow>
             if c = CHR 0x0D \<and> d = CHR 0x0A then cur # splitlines_from [] ds
             else cur # splitlines_from [] cs
         | [] \<Rightarrow> cur # splitlines_from [] cs)
      else splitlines_from (cur @ [c]) cs)"

definition splitlines :: "string \<Rightarrow> string list" where
  "splitlines s = splitlines_from [] s"

fun split_comma_from :: "string \<Rightarrow> string \<Rightarrow> string list" where
  "split_comma_from cur [] = [cur]"
| "split_comma_from cur (c # cs) =
     (if c = CHR '','' then cur # split_comma_from [] cs
      else split_comma_from (cur @ [c]) cs)"

definition split_comma :: "string \<Rightarrow> string list" where
  "split_comma s = split_comma_from [] s"

text \<open>
  The errors of \<^verbatim>\<open>parse_columns\<close> are all Python \<^verbatim>\<open>ValueError\<close>s: the one it raises
  itself for a short line, the one of the four-way tuple unpacking of a longer list, and
  the one of \<^verbatim>\<open>float\<close> for a field that is not a number.
\<close>

datatype cause =
    Invalid_column_line string
  | Too_many_values_to_unpack
  | Could_not_convert string

datatype error = ValueError cause

definition circumference_to_radius :: "real \<Rightarrow> real" where
  "circumference_to_radius circum_m = circum_m / (2 * pi)"

text \<open>
  The body of the loop for one stripped, non-empty line. Python's \<^verbatim>\<open>float\<close> is the
  parameter \<open>to_float\<close>, \<open>None\<close> where it raises.
\<close>

definition parse_column_line :: "(string \<Rightarrow> real option) \<Rightarrow> string \<Rightarrow> error + column" where
  "parse_column_line to_float line =
     (let parts = map strip (split_comma line)
      in if length parts < 4 then Inl (ValueError (Invalid_column_line line))
         else
           (case parts of
              [lbl, sx, sy, scirc] \<Rightarrow>
                (case to_float sx of
                   None \<Rightarrow> Inl (ValueError (Could_not_convert sx))
                 | Some cx \<Rightarrow>
                     (case to_float sy of
                        None \<Rightarrow> Inl (ValueError (Could_not_convert sy))
                      | Some cy \<Rightarrow>
                          (case to_float scirc of
                             None \<Rightarrow> Inl (ValueError (Could_not_convert scirc))
                           | Some c_circ \<Rightarrow>
                               Inr (lbl, cx, cy, circumference_to_radius c_circ))))
            | _ \<Rightarrow> Inl (ValueError Too_many_values_to_unpack)))"

fun parse_columns_loop ::
  "(string \<Rightarrow> real option) \<Rightarrow> string list \<Rightarrow> column list \<Rightarrow> error + column list" where
  "parse_columns_loop to_float [] columns = Inr columns"
| "parse_columns_loop to_float (l # lines) columns =
     (let line = strip l
      in if line = [] then parse_columns_loop to_float lines columns
         else
           (case parse_column_line to_float line of
              Inl e \<Rightarrow> Inl e
            | Inr col \<Rightarrow> parse_columns_loop to_float lines (columns @ [col])))"

definition parse_columns :: "(string \<Rightarrow> real option) \<Rightarrow> string \<Rightarrow> error + column list" where
  "parse_columns to_float txt = parse_columns_loop to_float (splitlines (strip txt)) []"

subsection \<open>Row building\<close>

text \<open>A row is the tuple \<^verbatim>\<open>(row_index, y_start, y_end)\<close> that \<^verbatim>\<open>build_rows\<close> appends.\<close>

type_synonym row = "int \<times> real \<times> real"

definition row_index :: "row \<Rightarrow> int" where "row_index r = fst r"
definition row_start :: "row \<Rightarrow> real" where "row_start r = fst (snd r)"
definition row_end :: "row \<Rightarrow> real" where "row_end r = snd (snd r)"

text \<open>Python's \<^verbatim>\<open>d.get(k, default)\<close>.\<close>

definition dict_get :: "('k \<rightharpoonup> 'v) \<Rightarrow> 'k \<Rightarrow> 'v \<Rightarrow> 'v" where
  "dict_get d k dflt = (case d k of Some v \<Rightarrow> v | None \<Rightarrow> dflt)"

text \<open>
  The \<^verbatim>\<open>while True\<close> loop of \<^verbatim>\<open>build_rows\<close>, entered with the loop state
  \<^verbatim>\<open>(rows, cur_y, i)\<close>. The function has no \<^verbatim>\<open>raise\<close>; the only way not to
  return a list is to loop forever, which is the value \<open>None\<close>.

  The cursor is a Python float, and \<^verbatim>\<open>cur_y + forced_h\<close> is the rounded sum of two
  doubles, not their exact sum: a small height added to a large cursor can leave the
  cursor where it is. The numbers are the reals that the doubles denote, and the
  addition is the parameter \<open>float_add\<close>, of which the definition assumes nothing; each
  statement below names what it needs of it.
\<close>

partial_function (option) build_rows_loop ::
  "(real \<Rightarrow> real \<Rightarrow> real) \<Rightarrow> real \<Rightarrow> real \<Rightarrow> (int \<rightharpoonup> real) \<Rightarrow> row list \<Rightarrow> real \<Rightarrow> int
     \<Rightarrow> row list option" where
  "build_rows_loop float_add total_length default_height forced_heights rows cur_y i =
     (if cur_y \<ge> total_length then Some rows
      else
        let forced_h = dict_get forced_heights i default_height;
            y_end0 = float_add cur_y forced_h;
            y_end = (if y_end0 > total_length then total_length else y_end0);
            rows' = rows @ [(i, cur_y, y_end)]
        in if y_end \<ge> total_length then Some rows'
           else build_rows_loop float_add total_length default_height forced_heights
                  rows' y_end (i + 1))"

declare build_rows_loop.simps [code]

definition build_rows ::
  "(real \<Rightarrow> real \<Rightarrow> real) \<Rightarrow> real \<Rightarrow> real \<Rightarrow> (int \<rightharpoonup> real) \<Rightarrow> row list option" where
  "build_rows float_add total_length default_height forced_heights =
     build_rows_loop float_add total_length default_height forced_heights [] 0 1"

text \<open>
  Vocabulary for the statements about rows: the half-open span \<open>[start, end)\<close> of a row,
  and the shape of a list of rows that starts at \<open>y\<close> with index \<open>i\<close>, each row
  beginning where the previous one ends and carrying the next index.
\<close>

definition span :: "row \<Rightarrow> real set" where
  "span r = {row_start r ..< row_end r}"

fun chain :: "real \<Rightarrow> int \<Rightarrow> row list \<Rightarrow> bool" where
  "chain y i [] = True"
| "chain y i ((j, s, e) # rs) = (j = i \<and> s = y \<and> chain e (i + 1) rs)"

fun chain_end :: "real \<Rightarrow> row list \<Rightarrow> real" where
  "chain_end y [] = y"
| "chain_end y ((j, s, e) # rs) = chain_end e rs"

text \<open>What one pass of the loop body makes of a row: it starts before the end of the
  hall and ends at the clamped sum of its start and its resolved height.\<close>

definition row_ok :: "(real \<Rightarrow> real \<Rightarrow> real) \<Rightarrow> real \<Rightarrow> real \<Rightarrow> (int \<rightharpoonup> real) \<Rightarrow> row \<Rightarrow> bool" where
  "row_ok fa L d fh r = (case r of (j, s, e) \<Rightarrow>
     s < L \<and> e = (if fa s (dict_get fh j d) > L then L else fa s (dict_get fh j d)))"

text \<open>
  The position that the cursor would have after \<open>n\<close> passes of the loop body, were the
  loop never to stop: row \<open>n + 1\<close> is laid from \<open>cursor n\<close>. It serves to say when the
  loop stops, which is when the cursor reaches the total length.
\<close>

fun cursor :: "(real \<Rightarrow> real \<Rightarrow> real) \<Rightarrow> real \<Rightarrow> real \<Rightarrow> (int \<rightharpoonup> real) \<Rightarrow> nat \<Rightarrow> real" where
  "cursor fa L d fh 0 = 0"
| "cursor fa L d fh (Suc n) =
     (let y_end0 = fa (cursor fa L d fh n) (dict_get fh (int n + 1) d)
      in if y_end0 > L then L else y_end0)"

subsection \<open>Columns, row classification and the row summary\<close>

definition in_band :: "real \<Rightarrow> real \<Rightarrow> real \<Rightarrow> bool" where
  "in_band cy ystart yend = (cy \<ge> ystart \<and> cy < yend)"

text \<open>The columns that take part in the classification: those not in \<^verbatim>\<open>columns_to_ignore\<close>.\<close>

definition custom_cols :: "column list \<Rightarrow> string set \<Rightarrow> column list" where
  "custom_cols columns columns_to_ignore =
     filter (\<lambda>(lbl, cx, cy, cr). lbl \<notin> columns_to_ignore) columns"

text \<open>
  The loop that marks each row: \<^verbatim>\<open>row_cols\<close> collects the columns of \<^verbatim>\<open>custom_cols\<close>
  whose centre lies in the band of the row, \<^verbatim>\<open>is_custom = bool(row_cols)\<close>.
\<close>

type_synonym row_entry = "int \<times> real \<times> real \<times> bool \<times> column list"

definition mark_row :: "column list \<Rightarrow> row \<Rightarrow> row_entry" where
  "mark_row custom r = (case r of (idx, ys, ye) \<Rightarrow>
     let row_cols = filter (\<lambda>(lbl, cx, cy, cr). in_band cy ys ye) custom;
         is_custom = (row_cols \<noteq> [])
     in (idx, ys, ye, is_custom, row_cols))"

definition entry_is_custom :: "row_entry \<Rightarrow> bool" where
  "entry_is_custom e = (case e of (idx, ys, ye, is_custom, row_cols) \<Rightarrow> is_custom)"

definition entry_cols :: "row_entry \<Rightarrow> column list" where
  "entry_cols e = (case e of (idx, ys, ye, is_custom, row_cols) \<Rightarrow> row_cols)"

definition row_data :: "row list \<Rightarrow> column list \<Rightarrow> row_entry list" where
  "row_data rows custom = map (mark_row custom) rows"

text \<open>
  The horizontal cut of one column, clamped to the hall; a column whose clamped span is
  empty contributes nothing. \<^verbatim>\<open>cuts\<close> is the list of these cuts in the order of
  \<^verbatim>\<open>row_cols\<close>.
\<close>

definition column_cut :: "real \<Rightarrow> column \<Rightarrow> interval list" where
  "column_cut hall_width c = (case c of (lbl, cx, cy, cr) \<Rightarrow>
     let x_min0 = cx - cr;
         x_max0 = cx + cr;
         x_min = (if x_min0 < 0 then 0 else x_min0);
         x_max = (if x_max0 > hall_width then hall_width else x_max0)
     in if x_max > x_min then [(x_min, x_max)] else [])"

definition cuts_of :: "real \<Rightarrow> column list \<Rightarrow> interval list" where
  "cuts_of hall_width row_cols = concat (map (column_cut hall_width) row_cols)"

text \<open>
  The merge: \<^verbatim>\<open>cuts.sort(key=lambda x: x[0])\<close> is a stable sort on the start, then one
  pass that either widens the last merged interval (\<^verbatim>\<open>merged[-1] = ...\<close>) or appends.
\<close>

definition merge_step :: "interval list \<Rightarrow> interval \<Rightarrow> interval list" where
  "merge_step merged iv =
     (if merged = [] then merged @ [iv]
      else
        let prev = last merged
        in if fst iv \<le> snd prev
           then merged[length merged - 1 := (fst prev, max (snd prev) (snd iv))]
           else merged @ [iv])"

definition merge_intervals :: "interval list \<Rightarrow> interval list" where
  "merge_intervals cuts = foldl merge_step [] (sort_key fst cuts)"

text \<open>The leftover segments: one pass over \<^verbatim>\<open>merged\<close> with the state
  \<^verbatim>\<open>(leftover, start_x)\<close>, then the trailing segment.\<close>

definition leftover_step :: "interval list \<times> real \<Rightarrow> interval \<Rightarrow> interval list \<times> real" where
  "leftover_step st c = (case st of (leftover, start_x) \<Rightarrow> (case c of (cstart, cend) \<Rightarrow>
     ((if cstart > start_x then leftover @ [(start_x, cstart)] else leftover), cend)))"

definition leftover_segments :: "real \<Rightarrow> interval list \<Rightarrow> interval list" where
  "leftover_segments hall_width merged =
     (case foldl leftover_step ([], 0) merged of (leftover, start_x) \<Rightarrow>
        if start_x < hall_width then leftover @ [(start_x, hall_width)] else leftover)"

text \<open>
  What \<^verbatim>\<open>plot_prayer_hall\<close> produces. The patches and texts added to the axes are a list
  of shapes, the console summary a list of lines; each line keeps the values that the
  \<^verbatim>\<open>print\<close> formats (the formatting itself is not modelled), the row label drawn in the
  middle of a band keeps the index, the height and the type of the row. Of the axis
  settings only \<^verbatim>\<open>y_max\<close> is kept; limits, axis labels and the title are left out.
\<close>

datatype shape =
    Rectangle real real real real string
  | Row_label real real int real string
  | Circle real real real
  | Label real real string

datatype report_line =
    Summary_title
  | Row_header int real real real string
  | Normal_row real real
  | Columns_line "string list"
  | Full_row real real "interval list"
  | Leftover_line real real real

definition draw_row :: "real \<Rightarrow> row_entry \<Rightarrow> shape list" where
  "draw_row hall_width e = (case e of (i, ys, ye, is_custom, row_cols) \<Rightarrow>
     let row_height = ye - ys;
         color = (if is_custom then ''orange'' else ''green'');
         label_y = ys + row_height * 0.5
     in [Rectangle 0 ys hall_width row_height color,
         Row_label (hall_width * 0.5) label_y i row_height
           (if is_custom then ''Custom'' else ''Normal'')])"

definition draw_column :: "column \<Rightarrow> shape list" where
  "draw_column c = (case c of (lbl, cx, cy, cr) \<Rightarrow> [Circle cx cy cr, Label cx cy lbl])"

definition report_row :: "real \<Rightarrow> row_entry \<Rightarrow> report_line list" where
  "report_row hall_width e = (case e of (i, ys, ye, is_custom, row_cols) \<Rightarrow>
     let row_h = ye - ys;
         row_type = (if is_custom then ''Custom'' else ''Normal'')
     in Row_header i ys ye row_h row_type #
        (if \<not> is_custom then [Normal_row hall_width row_h]
         else
           let merged = merge_intervals (cuts_of hall_width row_cols);
               leftover = leftover_segments hall_width merged
           in [Columns_line (map fst row_cols), Full_row hall_width row_h merged]
              @ map (\<lambda>seg. Leftover_line (fst seg) (snd seg) (snd seg - fst seg)) leftover))"

record plot =
  shapes :: "shape list"
  y_max :: real
  summary :: "report_line list"

definition plot_prayer_hall :: "row list \<Rightarrow> real \<Rightarrow> column list \<Rightarrow> string set \<Rightarrow> plot" where
  "plot_prayer_hall rows hall_width columns columns_to_ignore =
     (let custom = custom_cols columns columns_to_ignore;
          rd = row_data rows custom
      in \<lparr> shapes = concat (map (draw_row hall_width) rd) @ concat (map draw_column columns),
           y_max = (if rows \<noteq> [] then row_end (last rows) else 0),
           summary = Summary_title # concat (map (report_row hall_width) rd) \<rparr>)"

subsection \<open>Recursive readings of the two passes, for the proofs\<close>

text \<open>
  The merge pass and the leftover pass above follow the source: they grow a list at its
  end. The two functions below compute the same lists by recursion from the front; the
  equalities are proved further down (\<open>foldl_merge_step\<close>, \<open>leftover_segments_walk\<close>) and
  the properties of the passes are then shown by induction on these functions.
\<close>

fun merge_sorted :: "interval list \<Rightarrow> interval list" where
  "merge_sorted [] = []"
| "merge_sorted [p] = [p]"
| "merge_sorted ((a, b) # (c, d) # r) =
     (if c \<le> b then merge_sorted ((a, max b d) # r)
      else (a, b) # merge_sorted ((c, d) # r))"

fun walk :: "real \<Rightarrow> interval list \<Rightarrow> real \<Rightarrow> interval list" where
  "walk x [] w = (if x < w then [(x, w)] else [])"
| "walk x ((a, b) # r) w = (if a > x then [(x, a)] else []) @ walk b r w"

text \<open>A list of intervals that lies in \<open>[x, w]\<close> in increasing order, each interval
  non-empty and none starting before the previous one ends.\<close>

fun laid_out :: "real \<Rightarrow> interval list \<Rightarrow> real \<Rightarrow> bool" where
  "laid_out x [] w = (x \<le> w)"
| "laid_out x ((a, b) # r) w = (x \<le> a \<and> a < b \<and> laid_out b r w)"

text \<open>Two intervals do not overlap when one ends at or before the start of the other.\<close>

definition no_overlap :: "interval \<Rightarrow> interval \<Rightarrow> bool" where
  "no_overlap p q = (snd p \<le> fst q \<or> snd q \<le> fst p)"

text \<open>For a custom row, the merged cut intervals followed by the leftover segments, as
  the summary prints them (the \<open>Full_row\<close> line, then the \<open>Leftover_line\<close>s).\<close>

definition row_pieces :: "real \<Rightarrow> column list \<Rightarrow> interval list" where
  "row_pieces hall_width row_cols =
     (let merged = merge_intervals (cuts_of hall_width row_cols);
          leftover = leftover_segments hall_width merged
      in merged @ leftover)"

section \<open>Properties\<close>

subsection \<open>Row building: what the loop returns, and when it returns\<close>

text \<open>
  Partial correctness of the loop, by the fixpoint induction rule of the partial function:
  whatever it returns extends the rows it was entered with by a chain of rows that starts
  at the cursor and, unless empty, ends at the total length. Nothing is assumed of the
  addition.
\<close>

lemma loop_result:
  assumes "build_rows_loop fa L d fh rows y i = Some r"
  shows "\<exists>new. r = rows @ new \<and> chain y i new \<and> (new = [] \<longleftrightarrow> L \<le> y)
           \<and> (new \<noteq> [] \<longrightarrow> chain_end y new = L) \<and> (\<forall>x\<in>set new. row_ok fa L d fh x)"
  using assms
proof (induction rule: build_rows_loop.raw_induct [rotated 1, consumes 1, case_names step])
  case (step f fa L d fh rows y i r)
  note IH = step(1) and body = step(2)
  show ?case
  proof (cases "L \<le> y")
    case True
    with body show ?thesis by simp
  next
    case False
    define e where "e = (if fa y (dict_get fh i d) > L then L else fa y (dict_get fh i d))"
    have body': "(if L \<le> e then Some (rows @ [(i, y, e)])
                 else f fa L d fh (rows @ [(i, y, e)]) e (i + 1)) = Some r"
      using body False unfolding e_def Let_def by simp
    have e_le: "e \<le> L" by (simp add: e_def)
    have ok: "row_ok fa L d fh (i, y, e)" using False by (simp add: row_ok_def e_def)
    show ?thesis
    proof (cases "L \<le> e")
      case True
      with e_le have "e = L" by simp
      moreover from body' True have "r = rows @ [(i, y, e)]" by simp
      ultimately show ?thesis using False ok
        by (intro exI [of _ "[(i, y, e)]"]) simp
    next
      case nle: False
      with body' have "f fa L d fh (rows @ [(i, y, e)]) e (i + 1) = Some r" by simp
      from IH [OF this] obtain new where new:
        "r = (rows @ [(i, y, e)]) @ new" "chain e (i + 1) new" "new = [] \<longleftrightarrow> L \<le> e"
        "new \<noteq> [] \<longrightarrow> chain_end e new = L" "\<forall>x\<in>set new. row_ok fa L d fh x"
        by blast
      with False nle ok show ?thesis
        by (intro exI [of _ "(i, y, e) # new"]) simp
    qed
  qed
qed

text \<open>
  Termination: the loop, entered after \<open>m\<close> passes, returns as soon as the cursor
  reaches the total length some passes later.
\<close>

lemma loop_reaches:
  "L \<le> cursor fa L d fh (m + k) \<Longrightarrow>
   \<exists>r. build_rows_loop fa L d fh rows (cursor fa L d fh m) (int m + 1) = Some r"
proof (induction k arbitrary: m rows)
  case 0
  then show ?case by (simp add: build_rows_loop.simps)
next
  case (Suc k)
  let ?y = "cursor fa L d fh m"
  show ?case
  proof (cases "L \<le> ?y \<or> L \<le> cursor fa L d fh (Suc m)")
    case True
    then show ?thesis
      by (subst build_rows_loop.simps) (auto simp: Let_def)
  next
    case False
    from Suc.prems have "L \<le> cursor fa L d fh (Suc m + k)" by simp
    from Suc.IH [OF this, of "rows @ [(int m + 1, ?y, cursor fa L d fh (Suc m))]"]
    obtain r where "build_rows_loop fa L d fh (rows @ [(int m + 1, ?y, cursor fa L d fh (Suc m))])
        (cursor fa L d fh (Suc m)) (int m + 1 + 1) = Some r"
      by (auto simp: add.commute add.left_commute)
    with False show ?thesis
      by (subst build_rows_loop.simps) (auto simp: Let_def)
  qed
qed

lemma build_rows_reaches:
  "L \<le> cursor fa L d fh n \<Longrightarrow> \<exists>r. build_rows fa L d fh = Some r"
  using loop_reaches [of L fa d fh 0 n "[]"] by (simp add: build_rows_def)

lemma finite_dom_bound:
  fixes fh :: "int \<rightharpoonup> real"
  assumes "finite (dom fh)"
  shows "\<exists>N. \<forall>j\<ge>N. fh j = None"
proof (cases "dom fh = {}")
  case True
  then show ?thesis by simp
next
  case False
  have "\<forall>j\<ge>Max (dom fh) + 1. fh j = None"
  proof (intro allI impI)
    fix j assume j: "Max (dom fh) + 1 \<le> j"
    show "fh j = None"
    proof (rule ccontr)
      assume "fh j \<noteq> None"
      then have "j \<in> dom fh" by (simp add: dom_def)
      then have "j \<le> Max (dom fh)" using assms by simp
      with j show False by simp
    qed
  qed
  then show ?thesis ..
qed

text \<open>
  With heights that are not negative and an addition that does not go below its first
  argument for them, the cursor stays at or above 0; where the default height applies
  and moves every position of the hall by at least \<open>\<epsilon>\<close>, the cursor gains \<open>\<epsilon>\<close> with each
  pass until it reaches the total length.
\<close>

lemma cursor_nonneg:
  assumes "0 \<le> L" and "\<forall>x h. 0 \<le> h \<longrightarrow> x \<le> fa x h" and "\<forall>i. 0 \<le> dict_get fh i d"
  shows "0 \<le> cursor fa L d fh n"
proof (induction n)
  case 0
  then show ?case by simp
next
  case (Suc n)
  from assms(2,3) have "cursor fa L d fh n \<le> fa (cursor fa L d fh n) (dict_get fh (int n + 1) d)"
    by blast
  with Suc assms(1) show ?case by (simp add: Let_def)
qed

lemma cursor_progress:
  assumes "0 \<le> L" and "\<forall>x h. 0 \<le> h \<longrightarrow> x \<le> fa x h" and "\<forall>i. 0 \<le> dict_get fh i d"
    and "\<forall>j\<ge>int N + 1. fh j = None"
    and "\<forall>x. 0 \<le> x \<and> x < L \<longrightarrow> x + e \<le> fa x d" and "0 \<le> e"
  shows "min L (real k * e) \<le> cursor fa L d fh (N + k)"
proof (induction k)
  case 0
  from cursor_nonneg [OF assms(1,2,3)] assms(1) show ?case by simp
next
  case (Suc k)
  let ?c = "cursor fa L d fh (N + k)"
  have h: "dict_get fh (int (N + k) + 1) d = d"
    using assms(4) by (simp add: dict_get_def)
  have nn: "0 \<le> ?c" by (rule cursor_nonneg [OF assms(1,2,3)])
  have step: "cursor fa L d fh (N + Suc k) = (if fa ?c d > L then L else fa ?c d)"
    using h by (simp add: Let_def)
  show ?case
  proof (cases "?c < L")
    case True
    with nn assms(5) have "?c + e \<le> fa ?c d" by blast
    moreover from Suc True have "real k * e \<le> ?c" by simp
    ultimately have "real (Suc k) * e \<le> fa ?c d" by (simp add: algebra_simps)
    then show ?thesis unfolding step by simp
  next
    case False
    from assms(2,3) have "?c \<le> fa ?c (dict_get fh (int (N + k) + 1) d)" by blast
    with h have "?c \<le> fa ?c d" by simp
    with False have "L \<le> fa ?c d" by linarith
    then show ?thesis unfolding step by (simp add: min.coboundedI1)
  qed
qed

lemma cursor_reaches:
  assumes "0 \<le> L" and "\<forall>x h. 0 \<le> h \<longrightarrow> x \<le> fa x h" and "\<forall>i. 0 \<le> dict_get fh i d"
    and "finite (dom fh)"
    and "\<forall>x. 0 \<le> x \<and> x < L \<longrightarrow> x + e \<le> fa x d" and "0 < e"
  shows "\<exists>n. L \<le> cursor fa L d fh n"
proof -
  from finite_dom_bound [OF assms(4)] obtain M where M: "\<forall>j\<ge>M. fh j = None" ..
  define N where "N = nat M"
  have N: "\<forall>j\<ge>int N + 1. fh j = None" using M by (simp add: N_def)
  define k where "k = nat \<lceil>L / e\<rceil>"
  have "L / e \<le> real k" unfolding k_def by linarith
  with assms(6) have "L \<le> real k * e" by (simp add: field_simps)
  moreover have "min L (real k * e) \<le> cursor fa L d fh (N + k)"
    using assms(6) by (intro cursor_progress [OF assms(1,2,3) N assms(5)]) simp
  ultimately have "L \<le> cursor fa L d fh (N + k)" by simp
  then show ?thesis ..
qed

lemma chain_index:
  "chain y i rs \<Longrightarrow> k < length rs \<Longrightarrow> row_index (rs ! k) = i + int k"
proof (induction rs arbitrary: y i k)
  case Nil then show ?case by simp
next
  case (Cons r rs)
  obtain j s e where r: "r = (j, s, e)" by (cases r)
  show ?case
  proof (cases k)
    case 0 with Cons.prems r show ?thesis by (simp add: row_index_def)
  next
    case (Suc m)
    with Cons.prems r have "row_index (rs ! m) = (i + 1) + int m"
      by (intro Cons.IH [of e "i + 1" m]) simp_all
    with Suc show ?thesis by simp
  qed
qed

lemma chain_start:
  "chain y i rs \<Longrightarrow> k < length rs \<Longrightarrow>
   row_start (rs ! k) = (if k = 0 then y else row_end (rs ! (k - 1)))"
proof (induction rs arbitrary: y i k)
  case Nil then show ?case by simp
next
  case (Cons r rs)
  obtain j s e where r: "r = (j, s, e)" by (cases r)
  show ?case
  proof (cases k)
    case 0 with Cons.prems r show ?thesis by (simp add: row_start_def)
  next
    case (Suc m)
    with Cons.prems r have "row_start (rs ! m) = (if m = 0 then e else row_end (rs ! (m - 1)))"
      by (intro Cons.IH [of e "i + 1" m]) simp_all
    with Suc r show ?thesis by (cases m) (simp_all add: row_end_def)
  qed
qed

lemma chain_lower:
  "chain y i rs \<Longrightarrow> \<forall>r\<in>set rs. row_start r \<le> row_end r \<Longrightarrow> r \<in> set rs \<Longrightarrow> y \<le> row_start r"
proof (induction rs arbitrary: y i)
  case Nil then show ?case by simp
next
  case (Cons a rs)
  obtain j s e where a: "a = (j, s, e)" by (cases a)
  show ?case
  proof (cases "r = a")
    case True with Cons.prems a show ?thesis by (simp add: row_start_def)
  next
    case False
    with Cons.prems a have "e \<le> row_start r"
      by (intro Cons.IH [of e "i + 1"]) simp_all
    moreover from Cons.prems a have "y \<le> e" by (simp add: row_start_def row_end_def)
    ultimately show ?thesis by simp
  qed
qed

lemma chain_disjoint:
  "chain y i rs \<Longrightarrow> \<forall>r\<in>set rs. row_start r \<le> row_end r \<Longrightarrow> j < k \<Longrightarrow> k < length rs
   \<Longrightarrow> span (rs ! j) \<inter> span (rs ! k) = {}"
proof (induction rs arbitrary: y i j k)
  case Nil then show ?case by simp
next
  case (Cons a rs)
  obtain n s e where a: "a = (n, s, e)" by (cases a)
  from Cons.prems obtain m where k: "k = Suc m" by (cases k) simp_all
  from Cons.prems a have ch: "chain e (i + 1) rs" and ord: "\<forall>r\<in>set rs. row_start r \<le> row_end r"
    by simp_all
  show ?case
  proof (cases j)
    case 0
    from Cons.prems k have "rs ! m \<in> set rs" by simp
    from chain_lower [OF ch ord this] have "e \<le> row_start (rs ! m)" .
    with 0 k a show ?thesis by (auto simp: span_def row_start_def row_end_def)
  next
    case (Suc l)
    with Cons.prems k have "span (rs ! l) \<inter> span (rs ! m) = {}"
      by (intro Cons.IH [OF ch ord]) simp_all
    with Suc k show ?thesis by simp
  qed
qed

lemma chain_cover:
  "chain y i rs \<Longrightarrow> \<forall>r\<in>set rs. row_start r \<le> row_end r \<Longrightarrow>
   y \<le> chain_end y rs \<and> (\<Union>r\<in>set rs. span r) = {y ..< chain_end y rs}"
proof (induction rs arbitrary: y i)
  case Nil then show ?case by simp
next
  case (Cons a rs)
  obtain n s e where a: "a = (n, s, e)" by (cases a)
  from Cons.prems a have ch: "chain e (i + 1) rs" and ord: "\<forall>r\<in>set rs. row_start r \<le> row_end r"
    and ye: "y \<le> e" and s: "s = y"
    by (simp_all add: row_start_def row_end_def)
  from Cons.IH [OF ch ord] have IH: "e \<le> chain_end e rs" "(\<Union>r\<in>set rs. span r) = {e ..< chain_end e rs}"
    by simp_all
  have "span a = {y ..< e}" using a s by (simp add: span_def row_start_def row_end_def)
  with IH ye a show ?case by auto
qed

lemma chain_end_last:
  "rs \<noteq> [] \<Longrightarrow> chain_end y rs = row_end (last rs)"
proof (induction rs arbitrary: y)
  case Nil
  then show ?case by simp
next
  case (Cons a rs)
  obtain n s e where a: "a = (n, s, e)" by (cases a)
  show ?case
  proof (cases "rs = []")
    case True
    with a show ?thesis by (simp add: row_end_def)
  next
    case False
    with Cons.IH [of e] a show ?thesis by simp
  qed
qed

lemma row_ok_ordered:
  "row_ok fa L d fh r \<Longrightarrow> row_start r \<le> fa (row_start r) (dict_get fh (row_index r) d)
   \<Longrightarrow> row_start r \<le> row_end r"
  by (cases r) (auto simp: row_ok_def row_index_def row_start_def row_end_def split: if_splits)

lemma dict_get_nonneg:
  fixes d :: real
  shows "0 < d \<Longrightarrow> \<forall>h\<in>ran fh. 0 \<le> h \<Longrightarrow> 0 \<le> dict_get fh i d"
  by (auto simp: dict_get_def ran_def split: option.splits)

text \<open>
  The loop that the specification warns about: when the hall has length left, every
  resolved height is non-positive and adding such a height never moves the cursor
  forward, the cursor never reaches the total length and the loop does not return.
\<close>

lemma loop_stuck:
  assumes "build_rows_loop fa L d fh rows y i = Some r"
  shows "\<not> (y < L \<and> (\<forall>j. dict_get fh j d \<le> 0) \<and> (\<forall>x h. h \<le> 0 \<longrightarrow> fa x h \<le> x))"
  using assms
proof (induction rule: build_rows_loop.raw_induct [rotated 1, consumes 1, case_names step])
  case (step f fa L d fh rows y i r)
  note IH = step(1) and body = step(2)
  show ?case
  proof
    assume a: "y < L \<and> (\<forall>j. dict_get fh j d \<le> 0) \<and> (\<forall>x h. h \<le> 0 \<longrightarrow> fa x h \<le> x)"
    then have h: "dict_get fh i d \<le> 0" by blast
    from a have "y < L" by blast
    from a h have "fa y (dict_get fh i d) \<le> y" by blast
    with \<open>y < L\<close> have lt: "fa y (dict_get fh i d) < L" by linarith
    with body \<open>y < L\<close>
    have "f fa L d fh (rows @ [(i, y, fa y (dict_get fh i d))]) (fa y (dict_get fh i d)) (i + 1) = Some r"
      by (simp add: Let_def)
    from IH [OF this] a lt show False by blast
  qed
qed

lemma build_rows_loops_forever:
  assumes "0 < total_length" and "\<forall>j. dict_get forced_heights j default_height \<le> 0"
    and "\<forall>x h. h \<le> 0 \<longrightarrow> float_add x h \<le> x"
  shows "build_rows float_add total_length default_height forced_heights = None"
proof (cases "build_rows float_add total_length default_height forced_heights")
  case None then show ?thesis .
next
  case (Some r)
  from loop_stuck [OF Some [unfolded build_rows_def]] assms show ?thesis by simp
qed

subsection \<open>Row building: the claims\<close>

text \<open>
  C1, as the code has it. \<^verbatim>\<open>build_rows\<close> has no validation and raises nothing, whatever
  the heights. For a positive total length and any forced heights (the addition never
  exceeding its first argument when the height added is non-positive): the call returns
  if the cursor reaches the total length after some number of rows; and whenever it
  returns, it has emitted a non-empty list of rows with the indices 1, 2, 3, ..., the
  first starting at 0, each other starting where the previous one ends, the last ending
  at the total length, and every row ending at its start plus its resolved height,
  clamped to the total length. So a row whose resolved height is non-positive is
  emitted with its end at or before its start.
\<close>

theorem build_rows_never_fails:
  assumes "0 < total_length" and "\<forall>x h. h \<le> 0 \<longrightarrow> float_add x h \<le> x"
  shows "((\<exists>n. total_length \<le> cursor float_add total_length default_height forced_heights n)
            \<longrightarrow> (\<exists>rows. build_rows float_add total_length default_height forced_heights = Some rows))
     \<and> (\<forall>rows. build_rows float_add total_length default_height forced_heights = Some rows \<longrightarrow>
           rows \<noteq> []
         \<and> (\<forall>k<length rows. row_index (rows ! k) = int k + 1)
         \<and> (\<forall>k<length rows. row_start (rows ! k) = (if k = 0 then 0 else row_end (rows ! (k - 1))))
         \<and> row_end (last rows) = total_length
         \<and> (\<forall>r\<in>set rows.
               row_end r =
                 (if float_add (row_start r) (dict_get forced_heights (row_index r) default_height)
                       > total_length
                  then total_length
                  else float_add (row_start r) (dict_get forced_heights (row_index r) default_height))
             \<and> (dict_get forced_heights (row_index r) default_height \<le> 0
                  \<longrightarrow> row_end r \<le> row_start r)))"
  (is "?returns \<and> (\<forall>rows. ?result rows \<longrightarrow> ?shape rows)")
proof (rule conjI)
  show ?returns using build_rows_reaches by blast
next
  show "\<forall>rows. ?result rows \<longrightarrow> ?shape rows"
  proof (rule allI, rule impI)
    fix rows assume rows: "?result rows"
    from loop_result [OF rows [unfolded build_rows_def]] assms(1)
    have ch: "chain 0 1 rows" and ne: "rows \<noteq> []" and fin: "chain_end 0 rows = total_length"
      and ok: "\<forall>x\<in>set rows. row_ok float_add total_length default_height forced_heights x"
      by auto
    have p2: "\<forall>k<length rows. row_index (rows ! k) = int k + 1"
      using chain_index [OF ch] by simp
    have p3: "\<forall>k<length rows. row_start (rows ! k) = (if k = 0 then 0 else row_end (rows ! (k - 1)))"
      using chain_start [OF ch] by blast
    have p4: "row_end (last rows) = total_length"
      using chain_end_last [OF ne, of 0] fin by simp
    have p5: "\<forall>r\<in>set rows.
               row_end r =
                 (if float_add (row_start r) (dict_get forced_heights (row_index r) default_height)
                       > total_length
                  then total_length
                  else float_add (row_start r) (dict_get forced_heights (row_index r) default_height))
             \<and> (dict_get forced_heights (row_index r) default_height \<le> 0
                  \<longrightarrow> row_end r \<le> row_start r)"
    proof
      fix r assume "r \<in> set rows"
      with ok have r: "row_ok float_add total_length default_height forced_heights r" by blast
      obtain j s e where jse: "r = (j, s, e)" by (cases r)
      from r jse have s: "s < total_length"
        and e: "e = (if float_add s (dict_get forced_heights j default_height) > total_length
                     then total_length else float_add s (dict_get forced_heights j default_height))"
        by (simp_all add: row_ok_def)
      have "dict_get forced_heights j default_height \<le> 0 \<longrightarrow> e \<le> s"
      proof
        assume "dict_get forced_heights j default_height \<le> 0"
        with assms(2) have "float_add s (dict_get forced_heights j default_height) \<le> s" by blast
        with s e show "e \<le> s" by simp
      qed
      with e jse show "row_end r =
                 (if float_add (row_start r) (dict_get forced_heights (row_index r) default_height)
                       > total_length
                  then total_length
                  else float_add (row_start r) (dict_get forced_heights (row_index r) default_height))
             \<and> (dict_get forced_heights (row_index r) default_height \<le> 0
                  \<longrightarrow> row_end r \<le> row_start r)"
        by (simp add: row_index_def row_start_def row_end_def)
    qed
    show "?shape rows" by (intro conjI ne p2 p3 p4 p5)
  qed
qed

theorem build_rows_never_fails_witness:
  "(0::real) < 5
   \<and> 5 \<le> cursor (+) 5 2 [2 \<mapsto> -1] 4
   \<and> (\<exists>rows. build_rows (+) 5 2 [2 \<mapsto> -1] = Some rows
        \<and> rows \<noteq> [] \<and> row_end (last rows) = 5)"
proof -
  have h: "(0::real) < 5" "\<forall>x h::real. h \<le> 0 \<longrightarrow> x + h \<le> x" by simp_all
  have c: "5 \<le> cursor (+) 5 2 [2 \<mapsto> -1] 4"
    by (simp add: eval_nat_numeral dict_get_def)
  then have n: "\<exists>n. 5 \<le> cursor (+) 5 2 [2 \<mapsto> -1] n" ..
  note t = build_rows_never_fails [OF h, of 2 "[2 \<mapsto> -1]"]
  from t [THEN conjunct1, THEN mp, OF n]
  obtain rows where rows: "build_rows (+) 5 2 [2 \<mapsto> -1] = Some rows" ..
  from t [THEN conjunct2, THEN spec, THEN mp, OF rows]
  have "rows \<noteq> []" and "row_end (last rows) = 5" by simp_all
  with rows have "\<exists>rows. build_rows (+) 5 2 [2 \<mapsto> -1] = Some rows
        \<and> rows \<noteq> [] \<and> row_end (last rows) = 5"
    by (intro exI [of _ rows] conjI)
  with h(1) c show ?thesis by (intro conjI)
qed

text \<open>
  C1 as stated fails at the specification's own Example 5 (total length 5, default
  height 2, forced heights \<open>{2: -1}\<close>): the call returns four rows, the second of them
  running backwards from 2 to 1, and no error. The sums met are \<open>0 + 2\<close>, \<open>2 + (-1)\<close>,
  \<open>1 + 2\<close> and \<open>3 + 2\<close>, which floating-point addition computes exactly, so the
  addition is \<open>+\<close> here.
\<close>

theorem build_rows_invalid_height_returns:
  "build_rows (+) 5 2 [2 \<mapsto> -1] = Some [(1, 0, 2), (2, 2, 1), (3, 1, 3), (4, 3, 5)]"
  by (simp add: build_rows_def build_rows_loop.simps dict_get_def)

text \<open>
  C2, as the code has it. Take a positive total length, a positive default height and a
  (finite) dict of forced heights none of which is negative, the addition never going
  below its first argument when the height added is not negative. Whenever
  \<^verbatim>\<open>build_rows\<close> returns, the list returned is such that: the indices are 1, 2, 3, ...
  without gaps; the first row starts at 0 and every other row starts where the previous
  one ends; the half-open spans of two different rows are disjoint; and the spans
  together are exactly \<open>[0, total_length)\<close>. And it does return when adding the default
  height moves every position of the hall forward by at least some fixed \<open>\<epsilon> > 0\<close>. (It
  need not otherwise: in double arithmetic a default height of 1 leaves a cursor at
  \<open>10^16\<close> where it is.)
\<close>

theorem build_rows_partition:
  assumes "0 < total_length" and "0 < default_height" and "finite (dom forced_heights)"
    and "\<forall>h\<in>ran forced_heights. 0 \<le> h"
    and "\<forall>x h. 0 \<le> h \<longrightarrow> x \<le> float_add x h"
  shows "((\<exists>e>0. \<forall>x. 0 \<le> x \<and> x < total_length \<longrightarrow> x + e \<le> float_add x default_height)
            \<longrightarrow> (\<exists>rows. build_rows float_add total_length default_height forced_heights = Some rows))
     \<and> (\<forall>rows. build_rows float_add total_length default_height forced_heights = Some rows \<longrightarrow>
           (\<forall>k<length rows. row_index (rows ! k) = int k + 1)
         \<and> (\<forall>k<length rows. row_start (rows ! k) = (if k = 0 then 0 else row_end (rows ! (k - 1))))
         \<and> (\<forall>j k. j < k \<and> k < length rows \<longrightarrow> span (rows ! j) \<inter> span (rows ! k) = {})
         \<and> (\<Union>r\<in>set rows. span r) = {0 ..< total_length})"
  (is "(?progress \<longrightarrow> ?returns) \<and> (\<forall>rows. ?result rows \<longrightarrow> ?shape rows)")
proof (rule conjI)
  have nn: "\<forall>i. 0 \<le> dict_get forced_heights i default_height"
    using dict_get_nonneg [OF assms(2,4)] by blast
  show "?progress \<longrightarrow> ?returns"
  proof
    assume ?progress
    then obtain e where e: "0 < e"
      "\<forall>x. 0 \<le> x \<and> x < total_length \<longrightarrow> x + e \<le> float_add x default_height"
      by blast
    from assms(1) have "0 \<le> total_length" by simp
    from cursor_reaches [OF this assms(5) nn assms(3) e(2) e(1)]
    show ?returns using build_rows_reaches by blast
  qed
next
  have nn: "\<forall>i. 0 \<le> dict_get forced_heights i default_height"
    using dict_get_nonneg [OF assms(2,4)] by blast
  show "\<forall>rows. ?result rows \<longrightarrow> ?shape rows"
  proof (rule allI, rule impI)
    fix rows assume rows: "?result rows"
    from loop_result [OF rows [unfolded build_rows_def]] assms(1)
    have ch: "chain 0 1 rows" and ne: "rows \<noteq> []" and fin: "chain_end 0 rows = total_length"
      and ok: "\<forall>x\<in>set rows. row_ok float_add total_length default_height forced_heights x"
      by auto
    have ord: "\<forall>r\<in>set rows. row_start r \<le> row_end r"
    proof
      fix r assume "r \<in> set rows"
      with ok have "row_ok float_add total_length default_height forced_heights r" by blast
      moreover from assms(5) nn
      have "row_start r \<le> float_add (row_start r) (dict_get forced_heights (row_index r) default_height)"
        by blast
      ultimately show "row_start r \<le> row_end r" by (rule row_ok_ordered)
    qed
    have p1: "\<forall>k<length rows. row_index (rows ! k) = int k + 1"
      using chain_index [OF ch] by simp
    have p2: "\<forall>k<length rows. row_start (rows ! k) = (if k = 0 then 0 else row_end (rows ! (k - 1)))"
      using chain_start [OF ch] by blast
    have p3: "\<forall>j k. j < k \<and> k < length rows \<longrightarrow> span (rows ! j) \<inter> span (rows ! k) = {}"
      using chain_disjoint [OF ch ord] by blast
    have p4: "(\<Union>r\<in>set rows. span r) = {0 ..< total_length}"
      using chain_cover [OF ch ord] fin by simp
    show "?shape rows" by (intro conjI p1 p2 p3 p4)
  qed
qed

theorem build_rows_partition_witness:
  "(0::real) < 5 \<and> (0::real) < 2 \<and> finite (dom [2 \<mapsto> (1::real)])
   \<and> ran [2 \<mapsto> (1::real)] = {1} \<and> (0::real) \<le> 1
   \<and> (\<exists>rows. build_rows (+) 5 2 [2 \<mapsto> 1] = Some rows
     \<and> (\<forall>k<length rows. row_index (rows ! k) = int k + 1)
     \<and> (\<forall>k<length rows. row_start (rows ! k) = (if k = 0 then 0 else row_end (rows ! (k - 1))))
     \<and> (\<forall>j k. j < k \<and> k < length rows \<longrightarrow> span (rows ! j) \<inter> span (rows ! k) = {})
     \<and> (\<Union>r\<in>set rows. span r) = {0 ..< 5})"
proof -
  have h: "(0::real) < 5" "(0::real) < 2" "finite (dom [2 \<mapsto> (1::real)])"
    "\<forall>h\<in>ran [2 \<mapsto> (1::real)]. 0 \<le> h" "\<forall>x h::real. 0 \<le> h \<longrightarrow> x \<le> x + h"
    by simp_all
  have r: "ran [2 \<mapsto> (1::real)] = {1}" "(0::real) \<le> 1" by simp_all
  have p: "\<exists>e>0. \<forall>x::real. 0 \<le> x \<and> x < 5 \<longrightarrow> x + e \<le> x + 2"
    by (intro exI [of _ 2]) simp
  note t = build_rows_partition [OF h]
  from t [THEN conjunct1, THEN mp, OF p]
  obtain rows where rows: "build_rows (+) 5 2 [2 \<mapsto> 1] = Some rows" ..
  note s = t [THEN conjunct2, THEN spec, THEN mp, OF rows]
  from rows s have "\<exists>rows. build_rows (+) 5 2 [2 \<mapsto> 1] = Some rows
     \<and> (\<forall>k<length rows. row_index (rows ! k) = int k + 1)
     \<and> (\<forall>k<length rows. row_start (rows ! k) = (if k = 0 then 0 else row_end (rows ! (k - 1))))
     \<and> (\<forall>j k. j < k \<and> k < length rows \<longrightarrow> span (rows ! j) \<inter> span (rows ! k) = {})
     \<and> (\<Union>r\<in>set rows. span r) = {0 ..< 5}"
    by (intro exI [of _ rows] conjI) simp_all
  with h(1,2,3) r show ?thesis by (intro conjI)
qed

text \<open>
  C2 as stated, with arbitrary forced heights, fails when a forced height is negative:
  with total length 5, default height 2 and forced heights \<open>{2: -1}\<close> the first row spans
  \<open>[0, 2)\<close> and the third \<open>[1, 3)\<close>; the point 1.5 lies in both. The sums met are of small
  integers, which floating-point addition computes exactly, so the addition is \<open>+\<close> here.
\<close>

theorem build_rows_negative_forced_overlap:
  "build_rows (+) 5 2 [2 \<mapsto> -1] = Some [(1, 0, 2), (2, 2, 1), (3, 1, 3), (4, 3, 5)]
   \<and> 3 / 2 \<in> span (1, 0, 2) \<and> 3 / 2 \<in> span (3, 1, 3)"
  by (simp add: build_rows_def build_rows_loop.simps dict_get_def
      span_def row_start_def row_end_def)

text \<open>
  C9: for every \<open>total_length \<le> 0\<close>, with any default height, any forced heights and any
  addition, \<^verbatim>\<open>build_rows\<close> returns the empty list; it neither raises nor loops.
\<close>

theorem build_rows_nonpositive_length:
  "total_length \<le> 0 \<Longrightarrow> build_rows float_add total_length default_height forced_heights = Some []"
  by (simp add: build_rows_def build_rows_loop.simps)

theorem build_rows_nonpositive_length_witness:
  "(-3::real) \<le> 0 \<and> build_rows (+) (-3) (-1) [2 \<mapsto> -1] = Some []"
  using build_rows_nonpositive_length [of "-3" "(+)" "-1" "[2 \<mapsto> -1]"] by simp

subsection \<open>The merge pass and the leftover pass\<close>

text \<open>The pass that grows \<^verbatim>\<open>merged\<close> at its end computes \<open>merge_sorted\<close>.\<close>

lemma merge_step_snoc:
  "merge_step (acc @ [p]) q =
     (if fst q \<le> snd p then acc @ [(fst p, max (snd p) (snd q))] else acc @ [p, q])"
  by (simp add: merge_step_def Let_def)

lemma foldl_merge_step_snoc:
  "foldl merge_step (acc @ [p]) xs = acc @ merge_sorted (p # xs)"
proof (induction xs arbitrary: acc p)
  case Nil
  then show ?case by simp
next
  case (Cons q xs)
  obtain a b where p: "p = (a, b)" by (cases p)
  obtain c d where q: "q = (c, d)" by (cases q)
  show ?case
  proof (cases "c \<le> b")
    case True
    with p q have "foldl merge_step (acc @ [p]) (q # xs) = foldl merge_step (acc @ [(a, max b d)]) xs"
      by (simp add: merge_step_snoc)
    with Cons.IH [of acc "(a, max b d)"] True p q show ?thesis by simp
  next
    case False
    with p q have "foldl merge_step (acc @ [p]) (q # xs) = foldl merge_step ((acc @ [p]) @ [q]) xs"
      by (simp add: merge_step_snoc)
    with Cons.IH [of "acc @ [p]" q] False p q show ?thesis by simp
  qed
qed

lemma foldl_merge_step: "foldl merge_step [] xs = merge_sorted xs"
proof (cases xs)
  case Nil
  then show ?thesis by simp
next
  case (Cons p ys)
  have "foldl merge_step [] (p # ys) = foldl merge_step ([] @ [p]) ys"
    by (simp add: merge_step_def)
  with Cons show ?thesis by (simp only: foldl_merge_step_snoc) simp
qed

lemma merge_intervals_sorted: "merge_intervals cuts = merge_sorted (sort_key fst cuts)"
  by (simp add: merge_intervals_def foldl_merge_step)

lemma merge_sorted_starts: "fst ` set (merge_sorted xs) \<subseteq> fst ` set xs"
  by (induction xs rule: merge_sorted.induct) (auto split: if_splits)

lemma merge_sorted_sorted:
  "sorted (map fst xs) \<Longrightarrow> sorted (map fst (merge_sorted xs))"
proof (induction xs rule: merge_sorted.induct)
  case (3 a b c d r)
  show ?case
  proof (cases "c \<le> b")
    case True
    from "3.prems" have "sorted (map fst ((a, max b d) # r))" by auto
    with "3.IH"(1) True show ?thesis by simp
  next
    case False
    from "3.prems" have s: "sorted (map fst ((c, d) # r))" by simp
    have "\<forall>x\<in>set (merge_sorted ((c, d) # r)). a \<le> fst x"
    proof
      fix x assume "x \<in> set (merge_sorted ((c, d) # r))"
      then have "fst x \<in> fst ` set ((c, d) # r)" using merge_sorted_starts by blast
      with "3.prems" show "a \<le> fst x" by auto
    qed
    with "3.IH"(2) [OF False s] False show ?thesis by simp
  qed
qed simp_all

lemma merge_sorted_separated:
  "sorted (map fst xs) \<Longrightarrow> sorted_wrt (\<lambda>p q. snd p < fst q) (merge_sorted xs)"
proof (induction xs rule: merge_sorted.induct)
  case (3 a b c d r)
  show ?case
  proof (cases "c \<le> b")
    case True
    from "3.prems" have "sorted (map fst ((a, max b d) # r))" by auto
    with "3.IH"(1) True show ?thesis by simp
  next
    case False
    from "3.prems" have s: "sorted (map fst ((c, d) # r))" by simp
    have "\<forall>x\<in>set (merge_sorted ((c, d) # r)). b < fst x"
    proof
      fix x assume "x \<in> set (merge_sorted ((c, d) # r))"
      then have "fst x \<in> fst ` set ((c, d) # r)" using merge_sorted_starts by blast
      with "3.prems" have "c \<le> fst x" by auto
      with False show "b < fst x" by simp
    qed
    with "3.IH"(2) [OF False s] False show ?thesis by simp
  qed
qed simp_all

lemma merge_sorted_fixed:
  "sorted_wrt (\<lambda>p q. snd p < fst q) xs \<Longrightarrow> merge_sorted xs = xs"
  by (induction xs rule: merge_sorted.induct) auto

lemma merge_sorted_bounds:
  "\<forall>p\<in>set xs. lo \<le> fst p \<and> fst p < snd p \<and> snd p \<le> hi \<Longrightarrow>
   \<forall>p\<in>set (merge_sorted xs). lo \<le> fst p \<and> fst p < snd p \<and> snd p \<le> hi"
proof (induction xs rule: merge_sorted.induct)
  case (3 a b c d r)
  show ?case
  proof (cases "c \<le> b")
    case True
    from "3.prems" have "\<forall>p\<in>set ((a, max b d) # r). lo \<le> fst p \<and> fst p < snd p \<and> snd p \<le> hi"
      by (auto simp: less_max_iff_disj)
    from "3.IH"(1) [OF True this] True show ?thesis by simp
  next
    case False
    from "3.prems" have "\<forall>p\<in>set ((c, d) # r). lo \<le> fst p \<and> fst p < snd p \<and> snd p \<le> hi"
      by simp
    from "3.IH"(2) [OF False this] False "3.prems" show ?thesis by simp
  qed
qed simp_all

lemma merge_sorted_ordered:
  "\<forall>p\<in>set xs. fst p \<le> snd p \<Longrightarrow> \<forall>p\<in>set (merge_sorted xs). fst p \<le> snd p"
proof (induction xs rule: merge_sorted.induct)
  case (3 a b c d r)
  show ?case
  proof (cases "c \<le> b")
    case True
    from "3.prems" have "\<forall>p\<in>set ((a, max b d) # r). fst p \<le> snd p"
      by (auto simp: le_max_iff_disj)
    from "3.IH"(1) [OF True this] True show ?thesis by simp
  next
    case False
    from "3.prems" have "\<forall>p\<in>set ((c, d) # r). fst p \<le> snd p"
      by simp
    from "3.IH"(2) [OF False this] False "3.prems" show ?thesis by simp
  qed
qed simp_all

text \<open>The leftover pass computes \<open>walk\<close>; the cuts of a row lie in the hall.\<close>

lemma leftover_fold:
  "(case foldl leftover_step (acc, x) ms of (l, sx) \<Rightarrow> if sx < w then l @ [(sx, w)] else l)
     = acc @ walk x ms w"
proof (induction ms arbitrary: acc x)
  case Nil
  then show ?case by simp
next
  case (Cons c ms)
  obtain a b where c: "c = (a, b)" by (cases c)
  have "leftover_step (acc, x) c = ((if a > x then acc @ [(x, a)] else acc), b)"
    by (simp add: leftover_step_def c)
  then show ?case using Cons.IH [of "if a > x then acc @ [(x, a)] else acc" b] c by simp
qed

lemma leftover_segments_walk: "leftover_segments w ms = walk 0 ms w"
  using leftover_fold [where acc = "[]" and x = 0 and ms = ms and w = w] by (simp add: leftover_segments_def)

lemma column_cut_bounds:
  "p \<in> set (column_cut w c) \<Longrightarrow> 0 \<le> fst p \<and> fst p < snd p \<and> snd p \<le> w"
  by (cases c) (auto simp: column_cut_def Let_def split: if_splits)

lemma cuts_of_bounds:
  "\<forall>p\<in>set (cuts_of w cols). 0 \<le> fst p \<and> fst p < snd p \<and> snd p \<le> w"
  using column_cut_bounds by (fastforce simp: cuts_of_def)

lemma laid_out_separated:
  "sorted_wrt (\<lambda>p q. snd p < fst q) ms \<Longrightarrow>
   \<forall>p\<in>set ms. x \<le> fst p \<and> fst p < snd p \<and> snd p \<le> w \<Longrightarrow> x \<le> w \<Longrightarrow> laid_out x ms w"
proof (induction ms arbitrary: x)
  case Nil
  then show ?case by simp
next
  case (Cons c ms)
  obtain a b where c: "c = (a, b)" by (cases c)
  from Cons.prems c have "sorted_wrt (\<lambda>p q. snd p < fst q) ms"
    and "\<forall>p\<in>set ms. b \<le> fst p \<and> fst p < snd p \<and> snd p \<le> w" and "b \<le> w"
    by (auto intro: less_imp_le)
  then have "laid_out b ms w" by (rule Cons.IH)
  with Cons.prems c show ?case by simp
qed

lemma merged_laid_out:
  assumes "0 \<le> w"
  shows "laid_out 0 (merge_intervals (cuts_of w cols)) w"
proof -
  let ?s = "sort_key fst (cuts_of w cols)"
  have "\<forall>p\<in>set ?s. 0 \<le> fst p \<and> fst p < snd p \<and> snd p \<le> w"
    using cuts_of_bounds [of w cols] by simp
  then have "\<forall>p\<in>set (merge_sorted ?s). 0 \<le> fst p \<and> fst p < snd p \<and> snd p \<le> w"
    by (rule merge_sorted_bounds)
  moreover have "sorted_wrt (\<lambda>p q. snd p < fst q) (merge_sorted ?s)"
    by (simp add: merge_sorted_separated)
  ultimately show ?thesis using assms
    by (simp only: merge_intervals_sorted laid_out_separated)
qed

lemma laid_out_le: "laid_out x ms w \<Longrightarrow> x \<le> w"
proof (induction ms arbitrary: x)
  case Nil
  then show ?case by simp
next
  case (Cons c ms)
  obtain a b where c: "c = (a, b)" by (cases c)
  from Cons.prems c have "laid_out b ms w" "x \<le> a" "a < b" by simp_all
  with Cons.IH [of b] show ?case by simp
qed

lemma walk_bounds:
  "laid_out x ms w \<Longrightarrow> \<forall>g\<in>set (walk x ms w). x \<le> fst g \<and> fst g < snd g \<and> snd g \<le> w"
proof (induction ms arbitrary: x)
  case Nil
  then show ?case by simp
next
  case (Cons c ms)
  obtain a b where c: "c = (a, b)" by (cases c)
  from Cons.prems c have lo: "laid_out b ms w" and xa: "x \<le> a" and ab: "a < b" by simp_all
  from Cons.IH [OF lo] have IH: "\<forall>g\<in>set (walk b ms w). b \<le> fst g \<and> fst g < snd g \<and> snd g \<le> w" .
  have bw: "b \<le> w" using lo by (rule laid_out_le)
  show ?case
  proof
    fix g assume "g \<in> set (walk x (c # ms) w)"
    then consider "g = (x, a)" "x < a" | "g \<in> set (walk b ms w)"
      using c by (auto split: if_splits)
    then show "x \<le> fst g \<and> fst g < snd g \<and> snd g \<le> w"
    proof cases
      case 1
      with ab bw show ?thesis by simp
    next
      case 2
      with IH xa ab show ?thesis by fastforce
    qed
  qed
qed

lemma laid_out_bounds:
  "laid_out x ms w \<Longrightarrow> \<forall>p\<in>set ms. x \<le> fst p \<and> fst p < snd p \<and> snd p \<le> w"
proof (induction ms arbitrary: x)
  case Nil
  then show ?case by simp
next
  case (Cons c ms)
  obtain a b where c: "c = (a, b)" by (cases c)
  from Cons.prems c have lo: "laid_out b ms w" and xa: "x \<le> a" and ab: "a < b" by simp_all
  from Cons.IH [OF lo] have IH: "\<forall>p\<in>set ms. b \<le> fst p \<and> fst p < snd p \<and> snd p \<le> w" .
  have bw: "b \<le> w" using lo by (rule laid_out_le)
  from IH xa ab bw c show ?case by fastforce
qed

lemma laid_out_no_overlap:
  "laid_out x ms w \<Longrightarrow> sorted_wrt no_overlap (ms @ walk x ms w)"
proof (induction ms arbitrary: x)
  case Nil
  then show ?case by simp
next
  case (Cons c ms)
  obtain a b where c: "c = (a, b)" by (cases c)
  from Cons.prems c have lo: "laid_out b ms w" and xa: "x \<le> a" and ab: "a < b" by simp_all
  from Cons.IH [OF lo] have IH: "sorted_wrt no_overlap (ms @ walk b ms w)" .
  have ms: "\<forall>p\<in>set ms. b \<le> fst p" using laid_out_bounds [OF lo] by simp
  have wk: "\<forall>g\<in>set (walk b ms w). b \<le> fst g" using walk_bounds [OF lo] by simp
  let ?gap = "if a > x then [(x, a)] else []"
  have 1: "\<forall>p\<in>set ms \<union> set ?gap \<union> set (walk b ms w). no_overlap (a, b) p"
    using ms wk by (auto simp: no_overlap_def)
  have 2: "\<forall>p\<in>set ms. \<forall>g\<in>set ?gap. no_overlap p g"
    using ms ab by (auto simp: no_overlap_def)
  have 3: "\<forall>g\<in>set ?gap. \<forall>h\<in>set (walk b ms w). no_overlap g h"
    using wk ab by (auto simp: no_overlap_def)
  from IH have "sorted_wrt no_overlap (ms @ ?gap @ walk b ms w)"
    using 2 3 by (auto simp: sorted_wrt_append)
  with 1 c show ?case by (auto simp: sorted_wrt_append)
qed

lemma laid_out_union:
  "laid_out x ms w \<Longrightarrow> insert x (\<Union>p\<in>set (ms @ walk x ms w). {fst p .. snd p}) = {x .. w}"
proof (induction ms arbitrary: x)
  case Nil
  then show ?case by auto
next
  case (Cons c ms)
  obtain a b where c: "c = (a, b)" by (cases c)
  from Cons.prems c have lo: "laid_out b ms w" and xa: "x \<le> a" and ab: "a < b" by simp_all
  have bw: "b \<le> w" using lo by (rule laid_out_le)
  from Cons.IH [OF lo] have IH: "insert b (\<Union>p\<in>set (ms @ walk b ms w). {fst p .. snd p}) = {b .. w}" .
  have "(\<Union>p\<in>set ((c # ms) @ walk x (c # ms) w). {fst p .. snd p})
        = {a .. b} \<union> (if a > x then {x .. a} else {}) \<union> (\<Union>p\<in>set (ms @ walk b ms w). {fst p .. snd p})"
    using c by auto
  also have "\<dots> = (if a > x then {x .. a} else {}) \<union> ({a .. b} \<union> insert b (\<Union>p\<in>set (ms @ walk b ms w). {fst p .. snd p}))"
    using ab by auto
  also have "\<dots> = (if a > x then {x .. a} else {}) \<union> ({a .. b} \<union> {b .. w})"
    by (simp only: IH)
  finally have "insert x (\<Union>p\<in>set ((c # ms) @ walk x (c # ms) w). {fst p .. snd p})
        = insert x ((if a > x then {x .. a} else {}) \<union> ({a .. b} \<union> {b .. w}))" by simp
  also have "\<dots> = {x .. w}" using xa ab bw by auto
  finally show ?case .
qed

lemma laid_out_start_covered:
  "laid_out x ms w \<Longrightarrow> x < w \<Longrightarrow> x \<in> (\<Union>p\<in>set (ms @ walk x ms w). {fst p .. snd p})"
proof (cases ms)
  case Nil
  assume "x < w"
  with Nil show ?thesis by simp
next
  case (Cons c r)
  assume lo: "laid_out x ms w"
  obtain a b where c: "c = (a, b)" by (cases c)
  show ?thesis
  proof (cases "a > x")
    case True
    with Cons c show ?thesis by simp
  next
    case False
    with lo Cons c have "x = a" "a < b" by simp_all
    with Cons c show ?thesis by simp
  qed
qed

subsection \<open>Row classification and the summary\<close>

lemma row_data_nth:
  "k < length rows \<Longrightarrow> row_data rows custom ! k = mark_row custom (rows ! k)"
  by (simp add: row_data_def)

lemma filter_custom_band:
  "filter (\<lambda>(lbl, cx, cy, cr). in_band cy ys ye) (custom_cols columns ig)
     = filter (\<lambda>(lbl, cx, cy, cr). lbl \<notin> ig \<and> in_band cy ys ye) columns"
  unfolding custom_cols_def filter_filter
  by (rule filter_cong) auto

lemma mark_row_custom:
  "mark_row (custom_cols columns ig) (idx, ys, ye) =
     (idx, ys, ye,
      (\<exists>(lbl, cx, cy, cr)\<in>set columns. lbl \<notin> ig \<and> ys \<le> cy \<and> cy < ye),
      filter (\<lambda>(lbl, cx, cy, cr). lbl \<notin> ig \<and> in_band cy ys ye) columns)"
proof -
  have "(filter (\<lambda>(lbl, cx, cy, cr). lbl \<notin> ig \<and> in_band cy ys ye) columns \<noteq> [])
      = (\<exists>(lbl, cx, cy, cr)\<in>set columns. lbl \<notin> ig \<and> ys \<le> cy \<and> cy < ye)"
    by (auto simp: filter_empty_conv in_band_def)
  then show ?thesis
    by (simp add: mark_row_def Let_def filter_custom_band)
qed

lemma mark_row_radius:
  "entry_is_custom (mark_row (custom_cols (map (\<lambda>(lbl, cx, cy, cr). (lbl, cx, cy, g (lbl, cx, cy, cr))) columns) ig) r)
   = entry_is_custom (mark_row (custom_cols columns ig) r)"
proof -
  obtain idx ys ye where r: "r = (idx, ys, ye)" by (cases r)
  show ?thesis unfolding r mark_row_custom
    by (auto simp: entry_is_custom_def case_prod_beta)
qed

lemma mark_row_cols:
  "entry_cols (mark_row (custom_cols columns ig) r) =
     filter (\<lambda>(lbl, cx, cy, cr). lbl \<notin> ig \<and> in_band cy (row_start r) (row_end r)) columns"
proof -
  obtain idx ys ye where r: "r = (idx, ys, ye)" by (cases r)
  show ?thesis unfolding r mark_row_custom
    by (simp add: entry_cols_def row_start_def row_end_def)
qed

lemma report_row_columns:
  "Columns_line ls \<in> set (report_row w e) \<Longrightarrow> ls = map fst (entry_cols e)"
proof -
  obtain i ys ye ic rc where e: "e = (i, ys, ye, ic, rc)" by (cases e)
  assume "Columns_line ls \<in> set (report_row w e)"
  then show ?thesis unfolding e
    by (auto simp: report_row_def entry_cols_def Let_def split: if_splits)
qed

lemma summary_columns:
  assumes "Columns_line ls \<in> set (summary (plot_prayer_hall rows w columns ig))"
  shows "\<exists>r\<in>set rows. ls = map fst (entry_cols (mark_row (custom_cols columns ig) r))"
proof -
  from assms obtain e where e: "e \<in> set (row_data rows (custom_cols columns ig))"
    and ls: "Columns_line ls \<in> set (report_row w e)"
    by (auto simp: plot_prayer_hall_def Let_def)
  from e obtain r where "r \<in> set rows" "e = mark_row (custom_cols columns ig) r"
    by (auto simp: row_data_def)
  with report_row_columns [OF ls] show ?thesis by blast
qed

lemma drawn_columns:
  "(lbl, cx, cy, cr) \<in> set columns \<Longrightarrow>
   Circle cx cy cr \<in> set (shapes (plot_prayer_hall rows w columns ig))
   \<and> Label cx cy lbl \<in> set (shapes (plot_prayer_hall rows w columns ig))"
  by (force simp: plot_prayer_hall_def Let_def draw_column_def)

subsection \<open>Intervals and segments: the claims\<close>

text \<open>
  C6: for every list of intervals \<open>(start, end)\<close> with \<open>end \<ge> start\<close>, the merge (stable
  sort by start, then the pass that merges an interval into the last one when its start is
  at or before the accumulated end) returns a list that is sorted by start and pairwise
  non-overlapping: of two intervals of the result, the earlier ends strictly before the
  later starts, so that they share no point; every interval of the result still has
  \<open>end \<ge> start\<close>.
\<close>

theorem merge_intervals_sorted_disjoint:
  assumes "\<forall>p\<in>set cuts. fst p \<le> snd p"
  shows "sorted (map fst (merge_intervals cuts))
    \<and> (\<forall>p\<in>set (merge_intervals cuts). fst p \<le> snd p)
    \<and> (\<forall>i j. i < j \<and> j < length (merge_intervals cuts) \<longrightarrow>
          snd (merge_intervals cuts ! i) < fst (merge_intervals cuts ! j)
          \<and> {fst (merge_intervals cuts ! i) .. snd (merge_intervals cuts ! i)}
            \<inter> {fst (merge_intervals cuts ! j) .. snd (merge_intervals cuts ! j)} = {})"
proof -
  let ?m = "merge_intervals cuts"
  have m: "?m = merge_sorted (sort_key fst cuts)" by (rule merge_intervals_sorted)
  have s: "sorted (map fst ?m)" unfolding m by (simp add: merge_sorted_sorted)
  from assms have "\<forall>p\<in>set (sort_key fst cuts). fst p \<le> snd p" by simp
  then have o: "\<forall>p\<in>set ?m. fst p \<le> snd p" unfolding m by (rule merge_sorted_ordered)
  have "sorted_wrt (\<lambda>p q. snd p < fst q) ?m" unfolding m by (simp add: merge_sorted_separated)
  then have sep: "\<forall>i j. i < j \<and> j < length ?m \<longrightarrow> snd (?m ! i) < fst (?m ! j)"
    by (simp add: sorted_wrt_iff_nth_less)
  have "\<forall>i j. i < j \<and> j < length ?m \<longrightarrow>
          snd (?m ! i) < fst (?m ! j)
          \<and> {fst (?m ! i) .. snd (?m ! i)} \<inter> {fst (?m ! j) .. snd (?m ! j)} = {}"
  proof (intro allI impI)
    fix i j assume "i < j \<and> j < length ?m"
    with sep have "snd (?m ! i) < fst (?m ! j)" by blast
    then show "snd (?m ! i) < fst (?m ! j)
          \<and> {fst (?m ! i) .. snd (?m ! i)} \<inter> {fst (?m ! j) .. snd (?m ! j)} = {}"
      by auto
  qed
  with s o show ?thesis by blast
qed

theorem merge_intervals_sorted_disjoint_witness:
  "merge_intervals [(5, 8), (2, 6), (9, 9)] = [(2, 8), (9, 9)]
   \<and> sorted (map fst (merge_intervals [(5, 8), (2, 6), (9, 9)]))
   \<and> snd (merge_intervals [(5, 8), (2, 6), (9, 9)] ! 0) < fst (merge_intervals [(5, 8), (2, 6), (9, 9)] ! 1)"
proof -
  have e: "merge_intervals [(5, 8), (2, 6), (9, 9)] = [(2, 8), (9, 9)]"
    by (simp add: merge_intervals_def merge_step_def)
  have "\<forall>p\<in>set [(5, 8), (2, 6), (9, 9 :: real)]. fst p \<le> snd p" by simp
  from merge_intervals_sorted_disjoint [OF this] e show ?thesis by simp
qed

text \<open>
  C7: the merge is idempotent: applied to its own result, for any list of intervals, it
  returns that result unchanged.
\<close>

theorem merge_intervals_idempotent:
  "merge_intervals (merge_intervals cuts) = merge_intervals cuts"
proof -
  let ?m = "merge_sorted (sort_key fst cuts)"
  have s: "sorted (map fst ?m)" by (simp add: merge_sorted_sorted)
  have "sorted_wrt (\<lambda>p q. snd p < fst q) ?m" by (simp add: merge_sorted_separated)
  then have "merge_sorted ?m = ?m" by (rule merge_sorted_fixed)
  moreover from s have "sort_key fst ?m = ?m" by (rule sort_key_id_if_sorted)
  ultimately show ?thesis by (simp add: merge_intervals_sorted)
qed

text \<open>
  C4: in a hall of positive width, the merged cut intervals of a row together with its
  leftover segments partition \<open>[0, hall_width]\<close>: as closed intervals their union is
  \<open>[0, hall_width]\<close>, each of them has positive width, and the interiors of two different
  pieces are disjoint. The statement holds for any list of columns assigned to the row.
\<close>

theorem cuts_and_leftover_partition:
  assumes "0 < hall_width"
  shows "(\<Union>p\<in>set (row_pieces hall_width row_cols). {fst p .. snd p}) = {0 .. hall_width}
    \<and> (\<forall>p\<in>set (row_pieces hall_width row_cols). fst p < snd p)
    \<and> (\<forall>i j. i < j \<and> j < length (row_pieces hall_width row_cols) \<longrightarrow>
          {fst (row_pieces hall_width row_cols ! i) <..< snd (row_pieces hall_width row_cols ! i)}
          \<inter> {fst (row_pieces hall_width row_cols ! j) <..< snd (row_pieces hall_width row_cols ! j)} = {})"
proof -
  define merged where "merged = merge_intervals (cuts_of hall_width row_cols)"
  define leftover where "leftover = leftover_segments hall_width merged"
  have rp: "row_pieces hall_width row_cols = merged @ leftover"
    by (simp add: row_pieces_def merged_def leftover_def Let_def)
  have lo: "laid_out 0 merged hall_width"
    using assms merged_laid_out [of hall_width row_cols] by (simp add: merged_def)
  have lw: "leftover = walk 0 merged hall_width"
    by (simp add: leftover_def leftover_segments_walk)
  have "insert 0 (\<Union>p\<in>set (merged @ leftover). {fst p .. snd p}) = {0 .. hall_width}"
    using laid_out_union [OF lo] lw by simp
  moreover have "0 \<in> (\<Union>p\<in>set (merged @ leftover). {fst p .. snd p})"
    using laid_out_start_covered [OF lo assms] lw by simp
  ultimately have u: "(\<Union>p\<in>set (merged @ leftover). {fst p .. snd p}) = {0 .. hall_width}"
    by (simp add: insert_absorb)
  have pr: "\<forall>p\<in>set (merged @ leftover). fst p < snd p"
    using laid_out_bounds [OF lo] walk_bounds [OF lo] lw by auto
  have "sorted_wrt no_overlap (merged @ leftover)"
    using laid_out_no_overlap [OF lo] lw by simp
  then have "\<forall>i j. i < j \<and> j < length (merged @ leftover) \<longrightarrow>
      no_overlap ((merged @ leftover) ! i) ((merged @ leftover) ! j)"
    by (simp add: sorted_wrt_iff_nth_less)
  then have dj: "\<forall>i j. i < j \<and> j < length (merged @ leftover) \<longrightarrow>
          {fst ((merged @ leftover) ! i) <..< snd ((merged @ leftover) ! i)}
          \<inter> {fst ((merged @ leftover) ! j) <..< snd ((merged @ leftover) ! j)} = {}"
    unfolding no_overlap_def by fastforce
  from u pr dj show ?thesis unfolding rp by blast
qed

theorem cuts_and_leftover_partition_witness:
  "(0::real) < 10
   \<and> row_pieces 10 [(''C2'', 5, 1, 2)] = [(3, 7), (0, 3), (7, 10)]
   \<and> (\<Union>p\<in>set (row_pieces 10 [(''C2'', 5, 1, 2)]). {fst p .. snd p}) = {0 .. 10}"
proof -
  have h: "(0::real) < 10" by simp
  have e: "row_pieces 10 [(''C2'', 5, 1, 2)] = [(3, 7), (0, 3), (7, 10)]"
    by (simp add: row_pieces_def merge_intervals_def merge_step_def cuts_of_def
        column_cut_def leftover_segments_def leftover_step_def)
  from cuts_and_leftover_partition [OF h, of "[(''C2'', 5, 1, 2)]"] h e show ?thesis
    by blast
qed

subsection \<open>Classification and per-row output: the claims\<close>

text \<open>
  C5: the entry that \<^verbatim>\<open>plot_prayer_hall\<close> builds for a row \<open>(idx, ys, ye)\<close> is flagged
  custom exactly when some column whose label is not ignored has its centre \<open>cy\<close> with
  \<open>ys \<le> cy < ye\<close>; replacing the radii of the columns by any others leaves the flags of
  all rows unchanged.
\<close>

theorem row_intersected_iff:
  assumes "k < length rows" and "rows ! k = (idx, ys, ye)"
  shows "(\<exists>row_cols. row_data rows (custom_cols columns columns_to_ignore) ! k =
            (idx, ys, ye,
             (\<exists>(lbl, cx, cy, cr)\<in>set columns. lbl \<notin> columns_to_ignore \<and> ys \<le> cy \<and> cy < ye),
             row_cols))
    \<and> map entry_is_custom
         (row_data rows
            (custom_cols (map (\<lambda>(lbl, cx, cy, cr). (lbl, cx, cy, g (lbl, cx, cy, cr))) columns)
               columns_to_ignore))
      = map entry_is_custom (row_data rows (custom_cols columns columns_to_ignore))"
proof -
  have "row_data rows (custom_cols columns columns_to_ignore) ! k
      = mark_row (custom_cols columns columns_to_ignore) (idx, ys, ye)"
    using assms by (simp add: row_data_nth)
  then have 1: "\<exists>row_cols. row_data rows (custom_cols columns columns_to_ignore) ! k =
            (idx, ys, ye,
             (\<exists>(lbl, cx, cy, cr)\<in>set columns. lbl \<notin> columns_to_ignore \<and> ys \<le> cy \<and> cy < ye),
             row_cols)"
    by (simp add: mark_row_custom)
  have 2: "map entry_is_custom
         (row_data rows
            (custom_cols (map (\<lambda>(lbl, cx, cy, cr). (lbl, cx, cy, g (lbl, cx, cy, cr))) columns)
               columns_to_ignore))
      = map entry_is_custom (row_data rows (custom_cols columns columns_to_ignore))"
    by (simp add: row_data_def mark_row_radius)
  from 1 2 show ?thesis by blast
qed

theorem row_intersected_iff_witness:
  "(0::nat) < length [(1::int, 0::real, 2::real)] \<and> [(1::int, 0::real, 2::real)] ! 0 = (1, 0, 2)
   \<and> row_data [(1, 0, 2)] (custom_cols [(''C1'', 2, 1, 1), (''C2'', 5, 1, 9)] {''C1''}) ! 0
       = (1, 0, 2, True, [(''C2'', 5, 1, 9)])
   \<and> map entry_is_custom
         (row_data [(1, 0, 2)]
            (custom_cols (map (\<lambda>(lbl, cx, cy, cr). (lbl, cx, cy, (\<lambda>c. 0) (lbl, cx, cy, cr)))
               [(''C1'', 2, 1, 1::real), (''C2'', 5, 1, 9)]) {''C1''}))
      = map entry_is_custom (row_data [(1, 0, 2)] (custom_cols [(''C1'', 2, 1, 1), (''C2'', 5, 1, 9)] {''C1''}))"
proof -
  have e: "row_data [(1, 0, 2)] (custom_cols [(''C1'', 2, 1, 1), (''C2'', 5, 1, 9)] {''C1''}) ! 0
       = (1, 0, 2, True, [(''C2'', 5, 1, 9)])"
    by (simp add: row_data_def mark_row_def custom_cols_def in_band_def)
  have h: "(0::nat) < length [(1::int, 0::real, 2::real)]" "[(1::int, 0::real, 2::real)] ! 0 = (1, 0, 2)"
    by simp_all
  from row_intersected_iff [OF h, of "[(''C1'', 2, 1, 1), (''C2'', 5, 1, 9)]" "{''C1''}" "\<lambda>c. 0"] e h
  show ?thesis by blast
qed


text \<open>
  C3, as the code has it. A column whose label is in \<^verbatim>\<open>columns_to_ignore\<close> is not
  associated with any row: the column list of every row is exactly the list of the
  non-ignored columns whose centre lies in the band of the row, in input order, so the
  ignored column is in none of them and its label in no \<open>Columns\<close> line of the summary.
  It is still displayed: its circle and its label are among the shapes drawn, as for
  every column.
\<close>

theorem ignored_column_only_drawn:
  assumes "(lbl, cx, cy, cr) \<in> set columns" and "lbl \<in> columns_to_ignore"
  shows "(\<forall>k<length rows.
            entry_cols (row_data rows (custom_cols columns columns_to_ignore) ! k)
              = filter (\<lambda>(l, x, y, r). l \<notin> columns_to_ignore
                          \<and> in_band y (row_start (rows ! k)) (row_end (rows ! k))) columns
            \<and> (lbl, cx, cy, cr) \<notin> set (entry_cols (row_data rows (custom_cols columns columns_to_ignore) ! k)))
    \<and> (\<forall>ls. Columns_line ls \<in> set (summary (plot_prayer_hall rows hall_width columns columns_to_ignore))
            \<longrightarrow> lbl \<notin> set ls)
    \<and> Circle cx cy cr \<in> set (shapes (plot_prayer_hall rows hall_width columns columns_to_ignore))
    \<and> Label cx cy lbl \<in> set (shapes (plot_prayer_hall rows hall_width columns columns_to_ignore))"
proof -
  let ?ig = columns_to_ignore
  have 1: "\<forall>k<length rows.
            entry_cols (row_data rows (custom_cols columns ?ig) ! k)
              = filter (\<lambda>(l, x, y, r). l \<notin> ?ig
                          \<and> in_band y (row_start (rows ! k)) (row_end (rows ! k))) columns
            \<and> (lbl, cx, cy, cr) \<notin> set (entry_cols (row_data rows (custom_cols columns ?ig) ! k))"
    using assms(2) by (simp add: row_data_nth mark_row_cols)
  have 2: "\<forall>ls. Columns_line ls \<in> set (summary (plot_prayer_hall rows hall_width columns ?ig))
            \<longrightarrow> lbl \<notin> set ls"
  proof (intro allI impI)
    fix ls assume "Columns_line ls \<in> set (summary (plot_prayer_hall rows hall_width columns ?ig))"
    from summary_columns [OF this] obtain r where
      "ls = map fst (entry_cols (mark_row (custom_cols columns ?ig) r))" by blast
    then show "lbl \<notin> set ls" using assms(2) by (auto simp: mark_row_cols)
  qed
  from 1 2 drawn_columns [OF assms(1)] show ?thesis by blast
qed

theorem ignored_column_only_drawn_witness:
  "(''C1'', 12 / 5, 2, 1 / 2) \<in> set [(''C1'', 12 / 5, 2, 1 / 2 :: real), (''C2'', 5 :: real, 1 :: real, 2)]
   \<and> ''C1'' \<in> {''C1''}
   \<and> entry_cols (row_data [(1, 0, 5)] (custom_cols [(''C1'', 12 / 5, 2, 1 / 2), (''C2'', 5, 1, 2)] {''C1''}) ! 0)
       = [(''C2'', 5, 1, 2)]
   \<and> Circle (12 / 5) 2 (1 / 2)
       \<in> set (shapes (plot_prayer_hall [(1, 0, 5)] 10 [(''C1'', 12 / 5, 2, 1 / 2), (''C2'', 5, 1, 2)] {''C1''}))"
proof -
  have h: "(''C1'', 12 / 5, 2, 1 / 2) \<in> set [(''C1'', 12 / 5, 2, 1 / 2 :: real), (''C2'', 5 :: real, 1 :: real, 2)]"
    "''C1'' \<in> {''C1''}"
    by simp_all
  have e: "entry_cols (row_data [(1, 0, 5)] (custom_cols [(''C1'', 12 / 5, 2, 1 / 2), (''C2'', 5, 1, 2)] {''C1''}) ! 0)
       = [(''C2'', 5, 1, 2)]"
    by (simp add: row_data_def mark_row_def custom_cols_def in_band_def entry_cols_def)
  from ignored_column_only_drawn [OF h, of "[(1, 0, 5)]" 10] h e show ?thesis by blast
qed


text \<open>
  C3 as stated fails: with one row \<open>[0, 5)\<close> and the single column \<open>C1\<close>, ignored, whose
  centre \<open>y = 2\<close> is in the band, the entry of the row has an empty column list and the
  summary of the row names no column.
\<close>

theorem ignored_column_absent_from_row_output:
  "in_band 2 0 5 \<and> ''C1'' \<in> {''C1''}
   \<and> row_data [(1, 0, 5)] (custom_cols [(''C1'', 12 / 5, 2, 1 / 2)] {''C1''}) = [(1, 0, 5, False, [])]
   \<and> summary (plot_prayer_hall [(1, 0, 5)] 10 [(''C1'', 12 / 5, 2, 1 / 2)] {''C1''})
       = [Summary_title, Row_header 1 0 5 5 ''Normal'', Normal_row 10 5]"
  by (simp add: in_band_def row_data_def mark_row_def custom_cols_def plot_prayer_hall_def
      report_row_def)


text \<open>
  C8: in a hall of positive width, a row with no non-ignored column in its band is
  plain: its entry has the flag \<open>False\<close> and no columns, the summary reports it as one
  piece of the full width \<open>hall_width\<close> and prints no cut interval; the cut computation on
  its (empty) column list gives no merged interval and the single leftover segment
  \<open>(0, hall_width)\<close>.
\<close>

theorem plain_row_full_width:
  assumes "0 < hall_width" and "k < length rows" and "rows ! k = (idx, ys, ye)"
    and "\<not> (\<exists>(lbl, cx, cy, cr)\<in>set columns. lbl \<notin> columns_to_ignore \<and> ys \<le> cy \<and> cy < ye)"
  shows "row_data rows (custom_cols columns columns_to_ignore) ! k = (idx, ys, ye, False, [])
    \<and> report_row hall_width (row_data rows (custom_cols columns columns_to_ignore) ! k)
        = [Row_header idx ys ye (ye - ys) ''Normal'', Normal_row hall_width (ye - ys)]
    \<and> merge_intervals
        (cuts_of hall_width (entry_cols (row_data rows (custom_cols columns columns_to_ignore) ! k))) = []
    \<and> leftover_segments hall_width
        (merge_intervals
          (cuts_of hall_width (entry_cols (row_data rows (custom_cols columns columns_to_ignore) ! k))))
        = [(0, hall_width)]"
proof -
  have "filter (\<lambda>(lbl, cx, cy, cr). lbl \<notin> columns_to_ignore \<and> in_band cy ys ye) columns = []"
    using assms(4) by (auto simp: filter_empty_conv in_band_def)
  with assms(2,3,4) have e: "row_data rows (custom_cols columns columns_to_ignore) ! k = (idx, ys, ye, False, [])"
    by (simp add: row_data_nth mark_row_custom)
  have r: "report_row hall_width (idx, ys, ye, False, [])
        = [Row_header idx ys ye (ye - ys) ''Normal'', Normal_row hall_width (ye - ys)]"
    by (simp add: report_row_def Let_def)
  have m: "merge_intervals (cuts_of hall_width []) = []"
    by (simp add: merge_intervals_def cuts_of_def)
  have l: "leftover_segments hall_width [] = [(0, hall_width)]"
    using assms(1) by (simp add: leftover_segments_def)
  from e r m l show ?thesis by (simp add: entry_cols_def)
qed

theorem plain_row_full_width_witness:
  "(0::real) < 10 \<and> (1::nat) < length [(1::int, 0::real, 2::real), (2, 2, 4)]
   \<and> [(1::int, 0::real, 2::real), (2, 2, 4)] ! 1 = (2, 2, 4)
   \<and> \<not> (\<exists>(lbl, cx, cy, cr)\<in>set [(''C1'', 12 / 5, 2 :: real, 1 / 2 :: real), (''C2'', 5 :: real, 1, 2)].
           lbl \<notin> {''C1''} \<and> 2 \<le> cy \<and> cy < 4)
   \<and> row_data [(1, 0, 2), (2, 2, 4)] (custom_cols [(''C1'', 12 / 5, 2, 1 / 2), (''C2'', 5, 1, 2)] {''C1''}) ! 1
        = (2, 2, 4, False, [])
   \<and> report_row 10 (row_data [(1, 0, 2), (2, 2, 4)]
                      (custom_cols [(''C1'', 12 / 5, 2, 1 / 2), (''C2'', 5, 1, 2)] {''C1''}) ! 1)
        = [Row_header 2 2 4 (4 - 2) ''Normal'', Normal_row 10 (4 - 2)]"
proof -
  have h: "(0::real) < 10" "(1::nat) < length [(1::int, 0::real, 2::real), (2, 2, 4)]"
    "[(1::int, 0::real, 2::real), (2, 2, 4)] ! 1 = (2, 2, 4)"
    "\<not> (\<exists>(lbl, cx, cy, cr)\<in>set [(''C1'', 12 / 5, 2 :: real, 1 / 2 :: real), (''C2'', 5 :: real, 1, 2)].
           lbl \<notin> {''C1''} \<and> 2 \<le> cy \<and> cy < 4)"
    by simp_all
  from plain_row_full_width [OF h] h show ?thesis by blast
qed

subsection \<open>Parsing: the field count\<close>

text \<open>The number of fields of a line is one more than the number of its commas.\<close>

lemma split_comma_from_length:
  "length (split_comma_from cur s) = Suc (count_list s (CHR '',''))"
  by (induction s arbitrary: cur) simp_all

lemma split_comma_length: "length (split_comma s) = Suc (count_list s (CHR '',''))"
  by (simp add: split_comma_def split_comma_from_length)

lemma parse_column_line_short:
  "length (split_comma line) < 4 \<Longrightarrow>
   parse_column_line to_float line = Inl (ValueError (Invalid_column_line line))"
  by (simp add: parse_column_line_def)

lemma parse_column_line_long:
  assumes "length (split_comma line) > 4"
  shows "parse_column_line to_float line = Inl (ValueError Too_many_values_to_unpack)"
proof -
  let ?parts = "map strip (split_comma line)"
  from assms have "Suc (Suc (Suc (Suc (Suc 0)))) \<le> length ?parts" by simp
  then obtain a b c d e r where "?parts = a # b # c # d # e # r"
    by (auto simp: Suc_le_length_iff)
  then show ?thesis by (simp add: parse_column_line_def Let_def)
qed

lemma parse_column_line_ok:
  assumes "parse_column_line to_float line = Inr col"
  shows "length (split_comma line) = 4"
proof (rule ccontr)
  assume "length (split_comma line) \<noteq> 4"
  then consider "length (split_comma line) < 4" | "length (split_comma line) > 4" by linarith
  then show False
  proof cases
    case 1
    from parse_column_line_short [OF this, of to_float] assms show False by simp
  next
    case 2
    from parse_column_line_long [OF this, of to_float] assms show False by simp
  qed
qed

lemma parse_columns_loop_ok:
  "parse_columns_loop to_float ls columns = Inr result \<Longrightarrow>
   (\<forall>x\<in>set ls. strip x \<noteq> [] \<longrightarrow> length (split_comma (strip x)) = 4)
   \<and> length result = length columns + length (filter (\<lambda>x. strip x \<noteq> []) ls)"
proof (induction ls arbitrary: columns)
  case Nil
  then show ?case by simp
next
  case (Cons l ls)
  show ?case
  proof (cases "strip l = []")
    case True
    with Cons.prems have "parse_columns_loop to_float ls columns = Inr result" by simp
    from Cons.IH [OF this] True show ?thesis by simp
  next
    case False
    with Cons.prems obtain col where col: "parse_column_line to_float (strip l) = Inr col"
      and rest: "parse_columns_loop to_float ls (columns @ [col]) = Inr result"
      by (auto simp: Let_def split: sum.splits)
    from Cons.IH [OF rest] parse_column_line_ok [OF col] False show ?thesis by simp
  qed
qed

text \<open>
  C10: \<^verbatim>\<open>parse_columns\<close> accepts only lines of exactly four comma-separated fields. When
  the loop comes to a non-blank line of fewer than four fields it raises the
  \<^verbatim>\<open>ValueError\<close> of its own length check; when it comes to one of more than four fields
  it raises the \<^verbatim>\<open>ValueError\<close> of the tuple unpacking. So whenever \<^verbatim>\<open>parse_columns\<close>
  returns columns, every non-blank line of the text has exactly four fields, and there
  is one column per non-blank line.
\<close>

theorem parse_columns_four_fields:
  "(strip l \<noteq> [] \<and> length (split_comma (strip l)) < 4 \<longrightarrow>
      parse_columns_loop to_float (l # lines) columns
        = Inl (ValueError (Invalid_column_line (strip l))))
   \<and> (strip l \<noteq> [] \<and> length (split_comma (strip l)) > 4 \<longrightarrow>
      parse_columns_loop to_float (l # lines) columns = Inl (ValueError Too_many_values_to_unpack))
   \<and> (parse_columns to_float txt = Inr result \<longrightarrow>
      (\<forall>x\<in>set (splitlines (strip txt)). strip x \<noteq> [] \<longrightarrow> length (split_comma (strip x)) = 4)
      \<and> length result = length (filter (\<lambda>x. strip x \<noteq> []) (splitlines (strip txt))))"
proof (intro conjI impI)
  assume "strip l \<noteq> [] \<and> length (split_comma (strip l)) < 4"
  then show "parse_columns_loop to_float (l # lines) columns
        = Inl (ValueError (Invalid_column_line (strip l)))"
    by (simp add: parse_column_line_short)
next
  assume "strip l \<noteq> [] \<and> length (split_comma (strip l)) > 4"
  then show "parse_columns_loop to_float (l # lines) columns = Inl (ValueError Too_many_values_to_unpack)"
    by (simp add: parse_column_line_long)
next
  assume "parse_columns to_float txt = Inr result"
  from parse_columns_loop_ok [OF this [unfolded parse_columns_def]]
  show "\<forall>x\<in>set (splitlines (strip txt)). strip x \<noteq> [] \<longrightarrow> length (split_comma (strip x)) = 4"
    and "length result = length (filter (\<lambda>x. strip x \<noteq> []) (splitlines (strip txt)))"
    by simp_all
qed

theorem parse_columns_four_fields_witness:
  "parse_columns_loop (\<lambda>s. if s = ''1'' then Some 1 else None) [''C2, 1, 1 ''] []
     = Inl (ValueError (Invalid_column_line ''C2, 1, 1''))
   \<and> parse_columns_loop (\<lambda>s. if s = ''1'' then Some 1 else None) [''C2,1,1,1,1''] []
     = Inl (ValueError Too_many_values_to_unpack)
   \<and> parse_columns (\<lambda>s. if s = ''1'' then Some 1 else None) ''C2, 1, 1, 1''
     = Inr [(''C2'', 1, 1, circumference_to_radius 1)]
   \<and> length (split_comma ''C2, 1, 1, 1'') = 4"
proof -
  let ?f = "\<lambda>s. if s = ''1'' then Some (1::real) else None"
  have s: "strip ''C2, 1, 1 '' = ''C2, 1, 1''" "strip ''C2,1,1,1,1'' = ''C2,1,1,1,1''"
    "strip ''C2, 1, 1, 1'' = ''C2, 1, 1, 1''"
    by (simp_all add: strip_def is_space_def)
  have l: "length (split_comma ''C2, 1, 1'') < 4" "length (split_comma ''C2,1,1,1,1'') > 4"
    "length (split_comma ''C2, 1, 1, 1'') = 4"
    by (simp_all add: split_comma_def)
  have p: "parse_columns ?f ''C2, 1, 1, 1'' = Inr [(''C2'', 1, 1, circumference_to_radius 1)]"
    by (simp add: parse_columns_def parse_column_line_def splitlines_def split_comma_def
        strip_def is_space_def is_linebreak_def)
  have 1: "parse_columns_loop ?f [''C2, 1, 1 ''] [] = Inl (ValueError (Invalid_column_line ''C2, 1, 1''))"
    using parse_columns_four_fields [of "''C2, 1, 1 ''" ?f "[]" "[]"] s l by simp
  have 2: "parse_columns_loop ?f [''C2,1,1,1,1''] [] = Inl (ValueError Too_many_values_to_unpack)"
    using parse_columns_four_fields [of "''C2,1,1,1,1''" ?f "[]" "[]"] s l by simp
  have 3: "length (split_comma ''C2, 1, 1, 1'') = 4"
    using parse_columns_four_fields [of _ ?f _ _ "''C2, 1, 1, 1''" "[(''C2'', 1, 1, circumference_to_radius 1)]"] p s
    by (simp add: splitlines_def is_linebreak_def)
  from 1 2 p 3 show ?thesis by blast
qed

subsection \<open>The examples of the specification, evaluated\<close>

lemma example_rows:
  "build_rows (+) 5 2 Map.empty = Some [(1, 0, 2), (2, 2, 4), (3, 4, 5)]"
  by (simp add: build_rows_def build_rows_loop.simps dict_get_def)

lemma example_radius: "circumference_to_radius (2 * pi) = 1"
  by (simp add: circumference_to_radius_def)

lemma example_one_column:
  "merge_intervals (cuts_of 10 [(''C'', 5, 1, 2)]) = [(3, 7)]
   \<and> leftover_segments 10 (merge_intervals (cuts_of 10 [(''C'', 5, 1, 2)])) = [(0, 3), (7, 10)]"
  by (simp add: merge_intervals_def merge_step_def cuts_of_def column_cut_def
      leftover_segments_def leftover_step_def)

lemma example_overlapping_spans: "merge_intervals [(2, 6), (5, 8)] = [(2, 8)]"
  by (simp add: merge_intervals_def merge_step_def)

lemma example_forced_heights:
  "build_rows (+) 4 (3 / 2) [2 \<mapsto> 1 / 2] = Some [(1, 0, 3 / 2), (2, 3 / 2, 2), (3, 2, 7 / 2), (4, 7 / 2, 4)]"
  by (simp add: build_rows_def build_rows_loop.simps dict_get_def Let_def)

end
